theory Spec2Isabelle
  imports Complex_Main
begin

section \<open>Word timing records and the optimizer configuration\<close>

text \<open>
  A word is a Python dict with the keys \<^verbatim>\<open>word\<close>, \<^verbatim>\<open>start\<close>, \<^verbatim>\<open>end\<close> and, optionally,
  \<^verbatim>\<open>active\<close>. The key \<^verbatim>\<open>end\<close> is written \<open>end_time\<close> here. A missing \<^verbatim>\<open>active\<close> key is
  \<open>None\<close>; the code always reads it as \<^verbatim>\<open>word.get('active', True)\<close>.

  Times are Python floats. They are modelled as exact rationals: comparisons and
  assignments are the same in both, and the rounding of \<open>+\<close>, \<open>-\<close> and \<open>*\<close> is left out.
\<close>

record timed_word =
  word :: string
  start :: rat
  end_time :: rat
  active :: "bool option"

record optimizer =
  min_duration :: rat
  max_duration :: rat
  gap_merge_threshold :: rat
  active_word_bonus :: rat

text \<open>The default arguments of \<^verbatim>\<open>TimingOptimizer.__init__\<close>.\<close>

definition default_optimizer :: optimizer where
  "default_optimizer =
     \<lparr>min_duration = 45 / 100, max_duration = 15 / 10,
      gap_merge_threshold = 10 / 100, active_word_bonus = 2 / 10\<rparr>"

text \<open>\<^verbatim>\<open>word.get('active', True)\<close>\<close>

definition is_active :: "timed_word \<Rightarrow> bool" where
  "is_active w = (case active w of None \<Rightarrow> True | Some b \<Rightarrow> b)"

section \<open>The phases of \<^verbatim>\<open>TimingOptimizer\<close>\<close>

subsection \<open>\<^verbatim>\<open>_apply_minimum_durations\<close>\<close>

definition min_dur_of :: "optimizer \<Rightarrow> timed_word \<Rightarrow> rat" where
  "min_dur_of cfg w =
     (if is_active w then min_duration cfg + active_word_bonus cfg else min_duration cfg)"

definition apply_minimum_word :: "optimizer \<Rightarrow> timed_word \<Rightarrow> timed_word" where
  "apply_minimum_word cfg w =
     (let current_duration = end_time w - start w;
          min_dur = min_dur_of cfg w
      in if current_duration < min_dur then w\<lparr>end_time := start w + min_dur\<rparr> else w)"

definition apply_minimum_durations :: "optimizer \<Rightarrow> timed_word list \<Rightarrow> timed_word list" where
  "apply_minimum_durations cfg words = map (apply_minimum_word cfg) words"

subsection \<open>\<^verbatim>\<open>_merge_short_gaps\<close>\<close>

text \<open>
  The loop keeps the list \<^verbatim>\<open>merged_words\<close> and rewrites its last element in place. The
  list starts as \<^verbatim>\<open>[words[0]]\<close> and only grows, so \<^verbatim>\<open>merged_words[-1]\<close> always exists.
\<close>

fun merge_loop :: "optimizer \<Rightarrow> timed_word list \<Rightarrow> timed_word list \<Rightarrow> timed_word list" where
  "merge_loop cfg merged_words [] = merged_words"
| "merge_loop cfg merged_words (current_word # rest) =
     (let prev_word = last merged_words;
          gap = start current_word - end_time prev_word;
          merged_words' =
            (if gap \<le> gap_merge_threshold cfg
             then butlast merged_words @ [prev_word\<lparr>end_time := start current_word\<rparr>]
             else merged_words)
      in merge_loop cfg (merged_words' @ [current_word]) rest)"

fun merge_short_gaps :: "optimizer \<Rightarrow> timed_word list \<Rightarrow> timed_word list" where
  "merge_short_gaps cfg [] = []"
| "merge_short_gaps cfg [w] = [w]"
| "merge_short_gaps cfg (w # v # rest) = merge_loop cfg [w] (v # rest)"

subsection \<open>\<^verbatim>\<open>_resolve_overlaps\<close>\<close>

text \<open>
  One iteration of the loop: \<open>resolved_words\<close> is the list built so far, \<open>i\<close> the index,
  \<open>nxt\<close> is \<^verbatim>\<open>words[i + 1]\<close> when \<^verbatim>\<open>i + 1 < len(words)\<close>.
\<close>

definition resolve_word ::
  "optimizer \<Rightarrow> timed_word list \<Rightarrow> nat \<Rightarrow> timed_word \<Rightarrow> timed_word option \<Rightarrow> timed_word" where
  "resolve_word cfg resolved_words i w nxt =
     (case nxt of
        None \<Rightarrow> w
      | Some next_word \<Rightarrow>
          if end_time w > start next_word then
            (let overlap_start = start next_word;
                 overlap_end = end_time w;
                 overlap_duration = overlap_end - overlap_start;
                 split_point = overlap_start + overlap_duration * (3 / 10);
                 buffer = 5 / 100;
                 current_word = w\<lparr>end_time := split_point - buffer\<rparr>
             in if end_time current_word - start current_word < min_duration cfg * (75 / 100) then
                  (let potential_start = end_time current_word - min_duration cfg * (75 / 100)
                   in if i > 0 then
                        (let prev_end =
                               (if resolved_words \<noteq> [] then end_time (last resolved_words) else 0)
                         in current_word\<lparr>start := max potential_start (prev_end + 5 / 100)\<rparr>)
                      else current_word\<lparr>start := max potential_start 0\<rparr>)
                else current_word)
          else w)"

fun resolve_loop ::
  "optimizer \<Rightarrow> timed_word list \<Rightarrow> nat \<Rightarrow> timed_word list \<Rightarrow> timed_word list" where
  "resolve_loop cfg resolved_words i [] = resolved_words"
| "resolve_loop cfg resolved_words i (w # rest) =
     resolve_loop cfg
       (resolved_words @
          [resolve_word cfg resolved_words i w (case rest of [] \<Rightarrow> None | n # _ \<Rightarrow> Some n)])
       (Suc i) rest"

definition resolve_overlaps :: "optimizer \<Rightarrow> timed_word list \<Rightarrow> timed_word list" where
  "resolve_overlaps cfg words =
     (if length words \<le> 1 then words else resolve_loop cfg [] 0 words)"

subsection \<open>\<^verbatim>\<open>_apply_maximum_durations\<close>\<close>

definition apply_maximum_word :: "optimizer \<Rightarrow> timed_word \<Rightarrow> timed_word" where
  "apply_maximum_word cfg w =
     (let duration = end_time w - start w
      in if duration > max_duration cfg then w\<lparr>end_time := start w + max_duration cfg\<rparr> else w)"

definition apply_maximum_durations :: "optimizer \<Rightarrow> timed_word list \<Rightarrow> timed_word list" where
  "apply_maximum_durations cfg words = map (apply_maximum_word cfg) words"

subsection \<open>\<^verbatim>\<open>_clamp_to_clip_duration\<close>\<close>

text \<open>One iteration; \<open>None\<close> is the \<^verbatim>\<open>continue\<close> that skips the word.\<close>

definition clamp_word :: "rat \<Rightarrow> timed_word \<Rightarrow> timed_word option" where
  "clamp_word clip_duration w =
     (let clamped_word =
            (if end_time w > clip_duration then w\<lparr>end_time := clip_duration\<rparr> else w)
      in if start clamped_word \<ge> clip_duration then None
         else if end_time clamped_word - start clamped_word < 1 / 10
         then Some (clamped_word\<lparr>start := max 0 (end_time clamped_word - 1 / 10)\<rparr>)
         else Some clamped_word)"

definition clamp_to_clip_duration :: "timed_word list \<Rightarrow> rat \<Rightarrow> timed_word list" where
  "clamp_to_clip_duration words clip_duration = List.map_filter (clamp_word clip_duration) words"

subsection \<open>\<^verbatim>\<open>_validate_timing\<close>\<close>

definition validate_word :: "timed_word \<Rightarrow> timed_word" where
  "validate_word w =
     (let v = (if end_time w \<le> start w then w\<lparr>end_time := start w + 3 / 10\<rparr> else w)
      in if start v < 0 then v\<lparr>start := 0, end_time := max (end_time v) (3 / 10)\<rparr> else v)"

definition validate_timing :: "timed_word list \<Rightarrow> timed_word list" where
  "validate_timing words = map validate_word words"

subsection \<open>\<^verbatim>\<open>optimize_timing\<close>\<close>

text \<open>
  \<^verbatim>\<open>clip_duration\<close> is an optional float tested by truth value (\<^verbatim>\<open>if clip_duration:\<close>), so
  both \<open>None\<close> and \<open>Some 0\<close> skip the clamp. Python's \<^verbatim>\<open>sorted\<close> is stable, as is
  \<^const>\<open>sort_key\<close>.
\<close>

definition clip_given :: "rat option \<Rightarrow> bool" where
  "clip_given clip_duration = (case clip_duration of None \<Rightarrow> False | Some c \<Rightarrow> c \<noteq> 0)"

definition optimize_timing ::
  "optimizer \<Rightarrow> timed_word list \<Rightarrow> rat option \<Rightarrow> timed_word list" where
  "optimize_timing cfg words_data clip_duration =
     (if words_data = [] then words_data
      else
        (let words = sort_key start words_data;
             words = apply_minimum_durations cfg words;
             words = merge_short_gaps cfg words;
             words = resolve_overlaps cfg words;
             words = apply_maximum_durations cfg words;
             words = (if clip_given clip_duration
                      then clamp_to_clip_duration words (the clip_duration) else words)
         in validate_timing words))"

section \<open>Sentence grouping in \<^verbatim>\<open>ASSBuilder\<close>\<close>

subsection \<open>\<^verbatim>\<open>_fix_sentence_timing_overlaps\<close>\<close>

text \<open>
  One iteration for a non-empty group \<open>grp\<close>; \<open>rest\<close> holds the groups after it in the list the
  function was given, so its head is \<^verbatim>\<open>groups[i + 1]\<close>. \<open>None\<close> is the \<^verbatim>\<open>continue\<close> taken
  when the group has lost its only word.
\<close>

definition fix_group :: "timed_word list \<Rightarrow> timed_word list list \<Rightarrow> timed_word list option" where
  "fix_group grp rest =
     (case rest of
        [] \<Rightarrow> Some grp
      | next_group # _ \<Rightarrow>
          if next_group \<noteq> [] then
            (let next_start = start (hd next_group);
                 current_end = end_time (last grp)
             in if current_end \<ge> next_start then
                  (let gap = 5 / 100;
                       new_end = next_start - gap;
                       fixed_group = butlast grp @ [(last grp)\<lparr>end_time := new_end\<rparr>]
                   in if end_time (last fixed_group) \<le> start (last fixed_group) then
                        (if butlast fixed_group = [] then None else Some (butlast fixed_group))
                      else Some fixed_group)
                else Some grp)
          else Some grp)"

text \<open>The list \<^verbatim>\<open>fixed_groups\<close> is only appended to, so the loop is a recursion that conses.\<close>

fun fix_loop :: "timed_word list list \<Rightarrow> timed_word list list" where
  "fix_loop [] = []"
| "fix_loop (grp # rest) =
     (if grp = [] then fix_loop rest
      else (case fix_group grp rest of
              None \<Rightarrow> fix_loop rest
            | Some fixed_group \<Rightarrow> fixed_group # fix_loop rest))"

definition fix_sentence_timing_overlaps :: "timed_word list list \<Rightarrow> timed_word list list" where
  "fix_sentence_timing_overlaps groups = (if length groups \<le> 1 then groups else fix_loop groups)"

subsection \<open>\<^verbatim>\<open>_group_words_into_sentences\<close>\<close>

definition should_break :: "timed_word list \<Rightarrow> timed_word \<Rightarrow> bool" where
  "should_break current_group w =
     (if current_group \<noteq> [] then
        (let gap_from_last = start w - end_time (last current_group);
             duration_from_first = start w - start (hd current_group)
         in length current_group \<ge> 6 \<or> duration_from_first > 35 / 10 \<or> gap_from_last > 8 / 10)
      else False)"

fun group_loop ::
  "timed_word list list \<Rightarrow> timed_word list \<Rightarrow> timed_word list \<Rightarrow>
   timed_word list list \<times> timed_word list" where
  "group_loop groups current_group [] = (groups, current_group)"
| "group_loop groups current_group (w # rest) =
     (if should_break current_group w
      then group_loop (groups @ [current_group]) ([] @ [w]) rest
      else group_loop groups (current_group @ [w]) rest)"

text \<open>The groups as they are before the overlap fix is applied to them.\<close>

definition raw_groups :: "timed_word list \<Rightarrow> timed_word list list" where
  "raw_groups words =
     (case group_loop [] [] words of
        (groups, current_group) \<Rightarrow>
          if current_group \<noteq> [] then groups @ [current_group] else groups)"

definition group_words_into_sentences :: "timed_word list \<Rightarrow> timed_word list list" where
  "group_words_into_sentences words =
     (if words = [] then [] else fix_sentence_timing_overlaps (raw_groups words))"

section \<open>\<^verbatim>\<open>estimate_reading_load\<close>\<close>

text \<open>The result dict; the empty dict returned for an empty list is \<open>None\<close>.\<close>

record reading_load =
  total_words :: nat
  active_words :: nat
  words_per_second :: rat
  avg_word_duration_ms :: rat
  reading_difficulty :: string
  total_duration :: rat
  recommended_min_duration :: rat

definition difficulty_of :: "rat \<Rightarrow> string" where
  "difficulty_of wps =
     (if wps > 35 / 10 then ''Very Hard''
      else if wps > 25 / 10 then ''Hard''
      else if wps > 15 / 10 then ''Medium''
      else ''Easy'')"

definition estimate_reading_load :: "timed_word list \<Rightarrow> reading_load option" where
  "estimate_reading_load words =
     (if words = [] then None
      else
        (let duration = end_time (last words) - start (hd words);
             actives = filter is_active words;
             wps = (if duration > 0 then of_nat (length actives) / duration else 0);
             avg_word_duration =
               (if actives \<noteq> []
                then sum_list (map (\<lambda>w. end_time w - start w) actives) / of_nat (length actives)
                else 0)
         in Some \<lparr>total_words = length words,
                  active_words = length actives,
                  words_per_second = wps,
                  avg_word_duration_ms = avg_word_duration * 1000,
                  reading_difficulty = difficulty_of wps,
                  total_duration = duration,
                  recommended_min_duration = (if wps > 25 / 10 then 4 / 10 else 3 / 10)\<rparr>))"

section \<open>Notions used in the statements\<close>

text \<open>Adjacent words do not overlap in time: each \<open>end\<close> is at most the next \<open>start\<close>.\<close>

definition no_overlap :: "timed_word list \<Rightarrow> bool" where
  "no_overlap ws = successively (\<lambda>a b. end_time a \<le> start b) ws"

section \<open>Auxiliary functions for the proofs\<close>

text \<open>
  \<open>merge_rec\<close> is \<^verbatim>\<open>_merge_short_gaps\<close> without the accumulator: each word is compared once,
  with the word after it, and its own \<open>end\<close> was not yet rewritten at that moment.
\<close>

fun merge_rec :: "optimizer \<Rightarrow> timed_word list \<Rightarrow> timed_word list" where
  "merge_rec cfg (w # v # rest) =
     (if start v - end_time w \<le> gap_merge_threshold cfg then w\<lparr>end_time := start v\<rparr> else w)
       # merge_rec cfg (v # rest)"
| "merge_rec cfg [w] = [w]"
| "merge_rec cfg [] = []"

text \<open>
  What minimum-duration, gap merging and maximum-duration do to one word, given the start of
  the word after it (\<open>None\<close> for the last word).
\<close>

definition merge_word :: "optimizer \<Rightarrow> timed_word \<Rightarrow> rat option \<Rightarrow> timed_word" where
  "merge_word cfg w nxt =
     (case nxt of None \<Rightarrow> w
      | Some s \<Rightarrow> if s - end_time w \<le> gap_merge_threshold cfg then w\<lparr>end_time := s\<rparr> else w)"

definition opt_word :: "optimizer \<Rightarrow> timed_word \<Rightarrow> rat option \<Rightarrow> timed_word" where
  "opt_word cfg w nxt = apply_maximum_word cfg (merge_word cfg (apply_minimum_word cfg w) nxt)"

fun opt_rec :: "optimizer \<Rightarrow> timed_word list \<Rightarrow> timed_word list" where
  "opt_rec cfg (w # v # rest) = opt_word cfg w (Some (start v)) # opt_rec cfg (v # rest)"
| "opt_rec cfg [w] = [opt_word cfg w None]"
| "opt_rec cfg [] = []"

definition opt_end :: "optimizer \<Rightarrow> rat \<Rightarrow> rat \<Rightarrow> rat \<Rightarrow> rat option \<Rightarrow> rat" where
  "opt_end cfg s e m nxt =
     (let e1 = (if e - s < m then s + m else e);
          e2 = (case nxt of None \<Rightarrow> e1
                | Some s' \<Rightarrow> if s' - e1 \<le> gap_merge_threshold cfg then s' else e1)
      in if e2 - s > max_duration cfg then s + max_duration cfg else e2)"

text \<open>
  The new \<open>end\<close> of a word that overlaps the next one in \<^verbatim>\<open>_resolve_overlaps\<close>:
  \<^verbatim>\<open>split_point - buffer\<close>.
\<close>

definition truncated_end :: "timed_word \<Rightarrow> timed_word \<Rightarrow> rat" where
  "truncated_end w next_word =
     start next_word + (end_time w - start next_word) * (3 / 10) - 5 / 100"

text \<open>
  The grouping loop without the list of finished groups: \<open>cur\<close> is the group being filled.
\<close>

fun group_rec :: "timed_word list \<Rightarrow> timed_word list \<Rightarrow> timed_word list list" where
  "group_rec cur [] = (if cur \<noteq> [] then [cur] else [])"
| "group_rec cur (w # rest) =
     (if should_break cur w then cur # group_rec [w] rest else group_rec (cur @ [w]) rest)"

text \<open>Two records of the same word: they differ at most in \<open>end\<close>.\<close>

definition same_word :: "timed_word \<Rightarrow> timed_word \<Rightarrow> bool" where
  "same_word a b = (word a = word b \<and> start a = start b \<and> active a = active b)"

text \<open>No word of the group but its first met a break condition when it was added.\<close>

definition unbroken :: "timed_word list \<Rightarrow> bool" where
  "unbroken g = (\<forall>k. 0 < k \<and> k < length g \<longrightarrow> \<not> should_break (take k g) (g ! k))"

text \<open>\<^verbatim>\<open>words_per_second\<close> as \<^verbatim>\<open>estimate_reading_load\<close> computes it.\<close>

definition wps_of :: "timed_word list \<Rightarrow> rat" where
  "wps_of ws =
     (if 0 < end_time (last ws) - start (hd ws)
      then of_nat (length (filter is_active ws)) / (end_time (last ws) - start (hd ws)) else 0)"



text \<open>A word literal.\<close>

abbreviation timed :: "string \<Rightarrow> rat \<Rightarrow> rat \<Rightarrow> bool option \<Rightarrow> timed_word" where
  "timed n s e a \<equiv> \<lparr>word = n, start = s, end_time = e, active = a\<rparr>"

section \<open>Repair semantics of the final validation\<close>



lemmas phase_defs =
  apply_minimum_durations_def apply_minimum_word_def min_dur_of_def is_active_def
  resolve_overlaps_def resolve_word_def apply_maximum_durations_def apply_maximum_word_def
  clamp_to_clip_duration_def clamp_word_def validate_timing_def validate_word_def
  clip_given_def default_optimizer_def optimize_timing_def Let_def


section \<open>Gap merging, overlap resolution and the three middle phases\<close>

lemma merge_loop_eq: "merge_loop cfg (acc @ [w]) rest = acc @ merge_rec cfg (w # rest)"
proof (induction rest arbitrary: acc w)
  case Nil
  show ?case by simp
next
  case (Cons v rest)
  show ?case
  proof (cases "start v - end_time w \<le> gap_merge_threshold cfg")
    case True
    have "merge_loop cfg (acc @ [w]) (v # rest) =
          merge_loop cfg ((acc @ [w\<lparr>end_time := start v\<rparr>]) @ [v]) rest"
      using True by (simp add: Let_def)
    also have "\<dots> = (acc @ [w\<lparr>end_time := start v\<rparr>]) @ merge_rec cfg (v # rest)"
      by (rule Cons.IH)
    finally show ?thesis using True by simp
  next
    case False
    have "merge_loop cfg (acc @ [w]) (v # rest) = merge_loop cfg ((acc @ [w]) @ [v]) rest"
      using False by (simp add: Let_def)
    also have "\<dots> = (acc @ [w]) @ merge_rec cfg (v # rest)"
      by (rule Cons.IH)
    finally show ?thesis using False by simp
  qed
qed

lemma merge_short_gaps_eq: "merge_short_gaps cfg ws = merge_rec cfg ws"
proof (induction cfg ws rule: merge_rec.induct)
  case (1 cfg w v rest)
  show ?case using merge_loop_eq[of cfg "[]" w "v # rest"] by simp
qed simp_all

lemma merge_rec_starts: "map start (merge_rec cfg ws) = map start ws"
  by (induction cfg ws rule: merge_rec.induct) simp_all

lemma merge_rec_length: "length (merge_rec cfg ws) = length ws"
  by (induction cfg ws rule: merge_rec.induct) simp_all

lemma merge_rec_hd: "merge_rec cfg (v # rest) \<noteq> [] \<and> start (hd (merge_rec cfg (v # rest))) = start v"
  by (cases rest) simp_all

lemma merge_rec_no_overlap: "0 \<le> gap_merge_threshold cfg \<Longrightarrow> no_overlap (merge_rec cfg ws)"
proof (induction cfg ws rule: merge_rec.induct)
  case (1 cfg w v rest)
  then show ?case
    using merge_rec_hd[of cfg v rest]
    by (auto simp add: no_overlap_def successively_Cons)
qed (simp_all add: no_overlap_def)

lemma resolve_word_no_overlap:
  "(case nxt of None \<Rightarrow> True | Some n \<Rightarrow> end_time w \<le> start n) \<Longrightarrow> resolve_word cfg acc i w nxt = w"
  by (auto simp add: resolve_word_def split: option.splits)

lemma resolve_loop_no_overlap: "no_overlap ws \<Longrightarrow> resolve_loop cfg acc i ws = acc @ ws"
proof (induction ws arbitrary: acc i)
  case Nil
  show ?case by simp
next
  case (Cons w rest)
  have "resolve_word cfg acc i w (case rest of [] \<Rightarrow> None | n # _ \<Rightarrow> Some n) = w"
    using Cons.prems by (intro resolve_word_no_overlap) (auto simp: no_overlap_def split: list.splits)
  moreover have "no_overlap rest"
    using Cons.prems by (auto simp: no_overlap_def successively_Cons)
  ultimately show ?case using Cons.IH[of "acc @ [w]" "Suc i"] by simp
qed

lemma resolve_overlaps_no_overlap: "no_overlap ws \<Longrightarrow> resolve_overlaps cfg ws = ws"
  using resolve_loop_no_overlap[of ws cfg "[]" 0] by (simp add: resolve_overlaps_def)

lemma apply_minimum_word_start: "start (apply_minimum_word cfg w) = start w"
  by (simp add: apply_minimum_word_def Let_def)

lemma apply_maximum_word_start: "start (apply_maximum_word cfg w) = start w"
  by (simp add: apply_maximum_word_def Let_def)

lemma apply_maximum_word_end: "end_time (apply_maximum_word cfg w) \<le> end_time w"
  by (simp add: apply_maximum_word_def Let_def)

lemma no_overlap_map:
  assumes "no_overlap ws" and "\<And>w. start (f w) = start w" and "\<And>w. end_time (f w) \<le> end_time w"
  shows "no_overlap (map f ws)"
proof -
  have "successively (\<lambda>a b. end_time (f a) \<le> start (f b)) ws"
    using assms(1) unfolding no_overlap_def
    by (rule successively_mono) (use assms(2,3) in \<open>auto intro: order_trans\<close>)
  then show ?thesis by (simp add: no_overlap_def successively_map)
qed

lemma validate_timing_id:
  "\<forall>w \<in> set ws. 0 \<le> start w \<and> start w < end_time w \<Longrightarrow> validate_timing ws = ws"
  unfolding validate_timing_def
  by (intro map_idI) (fastforce simp add: validate_word_def Let_def)

lemma phases_eq_opt_rec:
  "apply_maximum_durations cfg (merge_rec cfg (apply_minimum_durations cfg ws)) = opt_rec cfg ws"
  by (induction cfg ws rule: opt_rec.induct)
     (simp_all add: apply_maximum_durations_def apply_minimum_durations_def opt_word_def merge_word_def
        apply_minimum_word_start)

lemma opt_word_start: "start (opt_word cfg w nxt) = start w"
  by (simp add: opt_word_def merge_word_def apply_maximum_word_start apply_minimum_word_start split: option.splits)

lemma opt_rec_starts: "map start (opt_rec cfg ws) = map start ws"
  by (induction cfg ws rule: opt_rec.induct) (simp_all add: opt_word_start)

lemma opt_rec_Cons: "opt_rec cfg (v # rest) = opt_word cfg v (case rest of [] \<Rightarrow> None | u # _ \<Rightarrow> Some (start u)) # opt_rec cfg rest"
  by (cases rest) simp_all

lemma opt_word_eq:
  "opt_word cfg w nxt = w\<lparr>end_time := opt_end cfg (start w) (end_time w) (min_dur_of cfg w) nxt\<rparr>"
  by (cases nxt)
     (simp_all add: opt_word_def merge_word_def apply_maximum_word_def apply_minimum_word_def
        opt_end_def Let_def)

lemma min_dur_of_end_update: "min_dur_of cfg (w\<lparr>end_time := x\<rparr>) = min_dur_of cfg w"
  by (simp add: min_dur_of_def is_active_def)

lemma opt_end_idem:
  "0 \<le> gap_merge_threshold cfg \<Longrightarrow> opt_end cfg s (opt_end cfg s e m nxt) m nxt = opt_end cfg s e m nxt"
  by (cases nxt) (auto simp add: opt_end_def Let_def)

lemma opt_word_idem:
  "0 \<le> gap_merge_threshold cfg \<Longrightarrow> opt_word cfg (opt_word cfg w nxt) nxt = opt_word cfg w nxt"
  by (simp add: opt_word_eq min_dur_of_end_update opt_end_idem)


lemma opt_rec_idem:
  "0 \<le> gap_merge_threshold cfg \<Longrightarrow> opt_rec cfg (opt_rec cfg ws) = opt_rec cfg ws"
proof (induction ws)
  case Nil
  show ?case by simp
next
  case (Cons w rest)
  have nxt: "(case opt_rec cfg rest of [] \<Rightarrow> None | u # _ \<Rightarrow> Some (start u)) =
             (case rest of [] \<Rightarrow> None | u # _ \<Rightarrow> Some (start u))"
    using opt_rec_starts[of cfg rest] by (cases rest; cases "opt_rec cfg rest") auto
  show ?case
    using Cons nxt by (simp add: opt_rec_Cons opt_word_idem)
qed


lemma opt_end_gt:
  assumes "0 < m" and "0 < max_duration cfg" and "case nxt of None \<Rightarrow> True | Some s' \<Rightarrow> s < s'"
  shows "s < opt_end cfg s e m nxt"
  using assms by (cases nxt) (auto simp add: opt_end_def Let_def)

lemma min_dur_of_pos: "0 < min_duration cfg \<Longrightarrow> 0 \<le> active_word_bonus cfg \<Longrightarrow> 0 < min_dur_of cfg w"
  by (simp add: min_dur_of_def)

lemma opt_rec_positive:
  assumes "0 < min_duration cfg" and "0 \<le> active_word_bonus cfg" and "0 < max_duration cfg"
    and "sorted_wrt (<) (map start xs)"
  shows "\<forall>w \<in> set (opt_rec cfg xs). start w < end_time w"
  using assms(4)
proof (induction xs)
  case Nil
  show ?case by simp
next
  case (Cons x xs)
  have "start x < opt_end cfg (start x) (end_time x) (min_dur_of cfg x)
                    (case xs of [] \<Rightarrow> None | u # _ \<Rightarrow> Some (start u))"
    using Cons.prems assms(1-3)
    by (intro opt_end_gt min_dur_of_pos) (auto split: list.splits)
  then show ?case
    using Cons by (simp add: opt_rec_Cons opt_word_eq)
qed

lemma opt_rec_no_overlap:
  assumes "0 \<le> gap_merge_threshold cfg"
  shows "no_overlap (opt_rec cfg xs)"
proof -
  have "no_overlap (map (apply_maximum_word cfg) (merge_rec cfg (apply_minimum_durations cfg xs)))"
    by (intro no_overlap_map merge_rec_no_overlap assms apply_maximum_word_start apply_maximum_word_end)
  then show ?thesis
    using phases_eq_opt_rec[of cfg xs] by (simp add: apply_maximum_durations_def)
qed

lemma starts_of_set:
  assumes "map start ys = map start xs" and "w \<in> set ys"
  shows "start w \<in> start ` set xs"
proof -
  have "start w \<in> set (map start ys)" using assms(2) by simp
  then show ?thesis using assms(1) by simp
qed

lemma optimize_timing_eq_opt_rec:
  assumes thr: "0 \<le> gap_merge_threshold cfg"
    and pos: "0 < min_duration cfg" "0 \<le> active_word_bonus cfg" "0 < max_duration cfg"
    and clip: "\<not> clip_given clip"
    and nonneg: "\<forall>w \<in> set ws. 0 \<le> start w"
    and dist: "distinct (map start ws)"
  shows "optimize_timing cfg ws clip = opt_rec cfg (sort_key start ws)"
proof (cases "ws = []")
  case True
  then show ?thesis by (simp add: optimize_timing_def)
next
  case False
  let ?xs = "sort_key start ws"
  let ?m = "merge_short_gaps cfg (apply_minimum_durations cfg ?xs)"
  have m: "?m = merge_rec cfg (apply_minimum_durations cfg ?xs)"
    by (rule merge_short_gaps_eq)
  have "no_overlap ?m"
    unfolding m by (rule merge_rec_no_overlap[OF thr])
  then have "resolve_overlaps cfg ?m = ?m"
    by (rule resolve_overlaps_no_overlap)
  then have r: "resolve_overlaps cfg ?m = merge_rec cfg (apply_minimum_durations cfg ?xs)"
    using m by simp
  have p5: "apply_maximum_durations cfg (resolve_overlaps cfg ?m) = opt_rec cfg ?xs"
    unfolding r by (rule phases_eq_opt_rec)
  have strict: "sorted_wrt (<) (map start ?xs)"
    using dist by (simp add: strict_sorted_iff distinct_map)
  have "\<forall>w \<in> set (opt_rec cfg ?xs). 0 \<le> start w \<and> start w < end_time w"
  proof
    fix w assume w: "w \<in> set (opt_rec cfg ?xs)"
    have "start w \<in> start ` set ?xs"
      using opt_rec_starts w by (rule starts_of_set)
    then have "0 \<le> start w" using nonneg by auto
    moreover have "start w < end_time w"
      using opt_rec_positive[OF pos strict] w by blast
    ultimately show "0 \<le> start w \<and> start w < end_time w" ..
  qed
  then have v: "validate_timing (opt_rec cfg ?xs) = opt_rec cfg ?xs"
    by (rule validate_timing_id)
  show ?thesis
    using False clip p5 v by (simp add: optimize_timing_def Let_def)
qed


section \<open>No overlap in the output\<close>

text \<open>
  The clip clamp pulls the start of a word that became shorter than 100ms back to
  \<open>end - 0.1\<close>, whatever the word before it: with the default configuration and a clip of
  1.05s the second of two touching words starts 50ms before the first one ends.
\<close>

theorem optimize_timing_overlap_counterexample:
  "optimize_timing default_optimizer
     [timed ''A'' 0 1 (Some True), timed ''B'' 1 2 (Some True)] (Some (105 / 100)) =
     [timed ''A'' 0 1 (Some True), timed ''B'' (95 / 100) (105 / 100) (Some True)] \<and>
   \<not> no_overlap (optimize_timing default_optimizer
     [timed ''A'' 0 1 (Some True), timed ''B'' 1 2 (Some True)] (Some (105 / 100)))"
  by (simp add: phase_defs no_overlap_def)

text \<open>
  C1, as amended: when the gap-merge threshold is not negative, the minimum and maximum
  durations are positive, the bonus is not negative, no clip duration takes effect, and the
  input starts are non-negative and pairwise distinct, the output of \<^verbatim>\<open>optimize_timing\<close> has
  \<open>end[i] \<le> start[i+1]\<close> for every adjacent pair.
\<close>

theorem optimize_timing_no_overlap:
  assumes "0 \<le> gap_merge_threshold cfg"
    and "0 < min_duration cfg" and "0 \<le> active_word_bonus cfg" and "0 < max_duration cfg"
    and "\<not> clip_given clip"
    and "\<forall>w \<in> set ws. 0 \<le> start w"
    and "distinct (map start ws)"
  shows "\<forall>i. Suc i < length (optimize_timing cfg ws clip) \<longrightarrow>
           end_time (optimize_timing cfg ws clip ! i) \<le> start (optimize_timing cfg ws clip ! Suc i)"
proof -
  have "no_overlap (optimize_timing cfg ws clip)"
    unfolding optimize_timing_eq_opt_rec[OF assms] by (rule opt_rec_no_overlap[OF assms(1)])
  then show ?thesis
    by (simp add: no_overlap_def successively_conv_nth)
qed

theorem optimize_timing_no_overlap_witness:
  "0 \<le> gap_merge_threshold default_optimizer \<and> 0 < min_duration default_optimizer \<and>
   0 \<le> active_word_bonus default_optimizer \<and> 0 < max_duration default_optimizer \<and>
   \<not> clip_given None \<and>
   0 \<le> start (timed ''A'' 0 1 (Some True)) \<and> 0 \<le> start (timed ''B'' (1 / 2) 2 (Some False)) \<and>
   distinct (map start [timed ''A'' 0 1 (Some True), timed ''B'' (1 / 2) 2 (Some False)]) \<and>
   optimize_timing default_optimizer
     [timed ''A'' 0 1 (Some True), timed ''B'' (1 / 2) 2 (Some False)] None =
     [timed ''A'' 0 (1 / 2) (Some True), timed ''B'' (1 / 2) 2 (Some False)] \<and>
   end_time (optimize_timing default_optimizer
     [timed ''A'' 0 1 (Some True), timed ''B'' (1 / 2) 2 (Some False)] None ! 0)
   \<le> start (optimize_timing default_optimizer
     [timed ''A'' 0 1 (Some True), timed ''B'' (1 / 2) 2 (Some False)] None ! Suc 0)"
proof -
  let ?ws = "[timed ''A'' 0 1 (Some True), timed ''B'' (1 / 2) 2 (Some False)]"
  have h: "0 \<le> gap_merge_threshold default_optimizer" "0 < min_duration default_optimizer"
    "0 \<le> active_word_bonus default_optimizer" "0 < max_duration default_optimizer"
    "\<not> clip_given None" "\<forall>w \<in> set ?ws. 0 \<le> start w" "distinct (map start ?ws)"
    by (simp_all add: default_optimizer_def clip_given_def)
  have e: "optimize_timing default_optimizer ?ws None =
     [timed ''A'' 0 (1 / 2) (Some True), timed ''B'' (1 / 2) 2 (Some False)]"
    by (simp add: phase_defs)
  have "Suc 0 < length (optimize_timing default_optimizer ?ws None) \<longrightarrow>
        end_time (optimize_timing default_optimizer ?ws None ! 0)
        \<le> start (optimize_timing default_optimizer ?ws None ! Suc 0)"
    using optimize_timing_no_overlap[OF h] by blast
  then show ?thesis using h e by simp
qed

section \<open>Running the optimizer on its own output\<close>













section \<open>Minimum durations\<close>












section \<open>Overlap resolution\<close>

lemma resolve_loop_append:
  "\<exists>ys. resolve_loop cfg acc i ws = acc @ ys \<and> length ys = length ws"
proof (induction ws arbitrary: acc i)
  case Nil
  show ?case by simp
next
  case (Cons w rest)
  let ?r = "resolve_word cfg acc i w (case rest of [] \<Rightarrow> None | n # _ \<Rightarrow> Some n)"
  from Cons.IH[of "acc @ [?r]" "Suc i"]
  obtain ys where "resolve_loop cfg (acc @ [?r]) (Suc i) rest = (acc @ [?r]) @ ys" "length ys = length rest"
    by blast
  then show ?case by simp
qed

lemma resolve_loop_nth:
  "j < length ws \<Longrightarrow>
   resolve_loop cfg acc i ws ! (length acc + j) =
     resolve_word cfg (take (length acc + j) (resolve_loop cfg acc i ws)) (i + j) (ws ! j)
       (if Suc j < length ws then Some (ws ! Suc j) else None)"
proof (induction ws arbitrary: acc i j)
  case Nil
  then show ?case by simp
next
  case (Cons w rest)
  let ?r = "resolve_word cfg acc i w (case rest of [] \<Rightarrow> None | n # _ \<Rightarrow> Some n)"
  obtain ys where ys: "resolve_loop cfg (acc @ [?r]) (Suc i) rest = (acc @ [?r]) @ ys"
    using resolve_loop_append by blast
  show ?case
  proof (cases j)
    case 0
    have "(case rest of [] \<Rightarrow> None | n # _ \<Rightarrow> Some n) =
          (if Suc 0 < length (w # rest) then Some ((w # rest) ! Suc 0) else None)"
      by (cases rest) simp_all
    then show ?thesis
      unfolding 0 using ys by (simp add: nth_append)
  next
    case (Suc k)
    then have "k < length rest" using Cons.prems by simp
    from Cons.IH[OF this, of "acc @ [?r]" "Suc i"] show ?thesis
      unfolding Suc by simp
  qed
qed

lemma resolve_overlaps_nth:
  assumes "Suc i < length ws"
  shows "resolve_overlaps cfg ws ! i =
     resolve_word cfg (take i (resolve_overlaps cfg ws)) i (ws ! i) (Some (ws ! Suc i))"
proof -
  have "resolve_overlaps cfg ws = resolve_loop cfg [] 0 ws"
    using assms by (simp add: resolve_overlaps_def)
  then show ?thesis
    using resolve_loop_nth[of i ws cfg "[]" 0] assms by simp
qed

lemma resolve_overlaps_length: "length (resolve_overlaps cfg ws) = length ws"
  using resolve_loop_append[of cfg "[]" 0 ws] by (auto simp add: resolve_overlaps_def)

lemma resolve_word_overlap:
  assumes "start n < end_time w"
  shows "resolve_word cfg acc i w (Some n) =
     (if truncated_end w n - start w < min_duration cfg * (75 / 100)
      then (if 0 < i
            then w\<lparr>end_time := truncated_end w n,
                   start := max (truncated_end w n - min_duration cfg * (75 / 100))
                                ((if acc \<noteq> [] then end_time (last acc) else 0) + 5 / 100)\<rparr>
            else w\<lparr>end_time := truncated_end w n,
                   start := max (truncated_end w n - min_duration cfg * (75 / 100)) 0\<rparr>)
      else w\<lparr>end_time := truncated_end w n\<rparr>)"
proof -
  define e where "e = truncated_end w n"
  define m where "m = min_duration cfg * (75 / 100)"
  define b :: rat where "b = 5 / 100"
  have e': "start n + (end_time w - start n) * (3 / 10) - b = e"
    by (simp only: e_def truncated_end_def b_def)
  have "resolve_word cfg acc i w (Some n) =
     (if e - start w < m
      then (if 0 < i
            then w\<lparr>end_time := e, start := max (e - m) ((if acc \<noteq> [] then end_time (last acc) else 0) + b)\<rparr>
            else w\<lparr>end_time := e, start := max (e - m) 0\<rparr>)
      else w\<lparr>end_time := e\<rparr>)"
    unfolding resolve_word_def Let_def option.case e' m_def[symmetric] b_def[symmetric]
    using assms by simp
  then show ?thesis unfolding e_def m_def b_def .
qed

text \<open>
  The test for pulling the start back compares with 75 percent of \<open>min_duration\<close> alone: an active
  word cut to 0.46s, below 75 percent of 0.45 + 0.2, keeps its start.
\<close>

theorem resolve_overlaps_pullback_counterexample:
  "resolve_overlaps default_optimizer
     [timed ''A'' 1 2 (Some True), timed ''B'' (13 / 10) 3 (Some True)] =
     [timed ''A'' 1 (146 / 100) (Some True), timed ''B'' (13 / 10) 3 (Some True)] \<and>
   146 / 100 - 1 < min_dur_of default_optimizer (timed ''A'' 1 2 (Some True)) * (75 / 100) \<and>
   start (resolve_overlaps default_optimizer
     [timed ''A'' 1 2 (Some True), timed ''B'' (13 / 10) 3 (Some True)] ! 0) =
   start (timed ''A'' 1 2 (Some True))"
  by (simp add: phase_defs)

text \<open>
  C6, as amended: when word \<open>i\<close> ends after word \<open>i+1\<close> starts, its end becomes
  \<open>start[i+1] + 0.3 * overlap - 0.05\<close>. If that leaves it shorter than 75 percent of \<open>minDuration\<close>
  (the bonus is not counted), its start becomes the larger of \<open>end - 0.75 * minDuration\<close> and
  the end of the already resolved word before it plus 50ms; for the first word the larger of
  \<open>end - 0.75 * minDuration\<close> and 0. Otherwise the start is unchanged.
\<close>

theorem resolve_overlaps_pullback:
  assumes "Suc i < length ws" and "start (ws ! Suc i) < end_time (ws ! i)"
  shows "end_time (resolve_overlaps cfg ws ! i) = truncated_end (ws ! i) (ws ! Suc i) \<and>
         start (resolve_overlaps cfg ws ! i) =
           (if truncated_end (ws ! i) (ws ! Suc i) - start (ws ! i) < min_duration cfg * (75 / 100)
            then (if 0 < i
                  then max (truncated_end (ws ! i) (ws ! Suc i) - min_duration cfg * (75 / 100))
                           (end_time (resolve_overlaps cfg ws ! (i - 1)) + 5 / 100)
                  else max (truncated_end (ws ! i) (ws ! Suc i) - min_duration cfg * (75 / 100)) 0)
            else start (ws ! i))"
proof -
  have last: "take i (resolve_overlaps cfg ws) \<noteq> [] \<and>
        last (take i (resolve_overlaps cfg ws)) = resolve_overlaps cfg ws ! (i - 1)" if "0 < i"
  proof -
    have len: "length (take i (resolve_overlaps cfg ws)) = i"
      using assms(1) by (simp add: resolve_overlaps_length)
    then have ne: "take i (resolve_overlaps cfg ws) \<noteq> []"
      using that by auto
    have "last (take i (resolve_overlaps cfg ws)) = take i (resolve_overlaps cfg ws) ! (i - 1)"
      using last_conv_nth[OF ne] len by simp
    also have "\<dots> = resolve_overlaps cfg ws ! (i - 1)"
      using that by simp
    finally show ?thesis using ne by simp
  qed
  show ?thesis
    unfolding resolve_overlaps_nth[OF assms(1)] resolve_word_overlap[OF assms(2)]
    using last by (cases "0 < i") simp_all
qed


theorem resolve_overlaps_pullback_witness:
  "Suc 1 < length [timed ''P'' 0 1 (Some True), timed ''A'' (12 / 10) 2 (Some True),
                   timed ''B'' (125 / 100) 3 (Some True)] \<and>
   start ([timed ''P'' 0 1 (Some True), timed ''A'' (12 / 10) 2 (Some True),
           timed ''B'' (125 / 100) 3 (Some True)] ! Suc 1)
     < end_time ([timed ''P'' 0 1 (Some True), timed ''A'' (12 / 10) 2 (Some True),
                  timed ''B'' (125 / 100) 3 (Some True)] ! 1) \<and>
   resolve_overlaps default_optimizer
     [timed ''P'' 0 1 (Some True), timed ''A'' (12 / 10) 2 (Some True),
      timed ''B'' (125 / 100) 3 (Some True)] =
     [timed ''P'' 0 1 (Some True), timed ''A'' (10875 / 10000) (1425 / 1000) (Some True),
      timed ''B'' (125 / 100) 3 (Some True)] \<and>
   start (resolve_overlaps default_optimizer
     [timed ''P'' 0 1 (Some True), timed ''A'' (12 / 10) 2 (Some True),
      timed ''B'' (125 / 100) 3 (Some True)] ! 1) =
   max (1425 / 1000 - min_duration default_optimizer * (75 / 100)) (1 + 5 / 100)"
proof -
  let ?ws = "[timed ''P'' 0 1 (Some True), timed ''A'' (12 / 10) 2 (Some True),
              timed ''B'' (125 / 100) 3 (Some True)]"
  have h: "Suc 1 < length ?ws" "start (?ws ! Suc 1) < end_time (?ws ! 1)"
    by simp_all
  have e: "resolve_overlaps default_optimizer ?ws =
     [timed ''P'' 0 1 (Some True), timed ''A'' (10875 / 10000) (1425 / 1000) (Some True),
      timed ''B'' (125 / 100) 3 (Some True)]"
    by (simp add: phase_defs)
  have t: "truncated_end (?ws ! 1) (?ws ! Suc 1) = 1425 / 1000"
    by (simp add: truncated_end_def)
  have "start (resolve_overlaps default_optimizer ?ws ! 1) =
        max (1425 / 1000 - min_duration default_optimizer * (75 / 100))
            (end_time (resolve_overlaps default_optimizer ?ws ! (1 - 1)) + 5 / 100)"
    using resolve_overlaps_pullback[OF h, of default_optimizer] unfolding t
    by (simp add: default_optimizer_def)
  then show ?thesis using h e by (simp add: default_optimizer_def)
qed

section \<open>The clip clamp\<close>











section \<open>Gap merging on overlapping words\<close>

text \<open>
  On words that do not overlap the phase only moves ends forward, and it changes nothing
  when the threshold is zero or negative.
\<close>

lemma merge_rec_id:
  "no_overlap ws \<Longrightarrow> gap_merge_threshold cfg \<le> 0 \<Longrightarrow> merge_rec cfg ws = ws"
proof (induction cfg ws rule: merge_rec.induct)
  case (1 cfg w v rest)
  then have "end_time w \<le> start v" and "no_overlap (v # rest)"
    by (simp_all add: no_overlap_def)
  then show ?case using 1 by auto
qed simp_all

lemma merge_rec_extends:
  "no_overlap ws \<Longrightarrow>
   list_all2 (\<lambda>v w. v = w \<or> (\<exists>e. v = w\<lparr>end_time := e\<rparr> \<and> end_time w \<le> e)) (merge_rec cfg ws) ws"
proof (induction cfg ws rule: merge_rec.induct)
  case (1 cfg w v rest)
  then have "end_time w \<le> start v" and "no_overlap (v # rest)"
    by (simp_all add: no_overlap_def)
  then show ?case using 1 by auto
qed simp_all

lemma merge_short_gaps_id:
  "no_overlap ws \<Longrightarrow> gap_merge_threshold cfg \<le> 0 \<Longrightarrow> merge_short_gaps cfg ws = ws"
  by (simp add: merge_short_gaps_eq merge_rec_id)

lemma merge_short_gaps_extends:
  "no_overlap ws \<Longrightarrow>
   list_all2 (\<lambda>v w. v = w \<or> (\<exists>e. v = w\<lparr>end_time := e\<rparr> \<and> end_time w \<le> e))
     (merge_short_gaps cfg ws) ws"
  by (simp add: merge_short_gaps_eq merge_rec_extends)

text \<open>
  C5: the merge tests only \<open>gap \<le> gap_merge_threshold\<close>, so a negative gap (the previous
  word ends after the current one starts) also passes, and the previous word's end is moved
  backward to the current start. This happens with the default threshold and with the
  threshold 0 that \<^verbatim>\<open>main_enterprise.py\<close> passes to disable gap merging.
\<close>

theorem merge_short_gaps_moves_end_backward:
  "merge_short_gaps default_optimizer [timed ''A'' 0 2 (Some True), timed ''B'' 1 3 (Some True)] =
     [timed ''A'' 0 1 (Some True), timed ''B'' 1 3 (Some True)] \<and>
   merge_short_gaps (default_optimizer\<lparr>gap_merge_threshold := 0\<rparr>)
     [timed ''A'' 0 2 (Some True), timed ''B'' 1 3 (Some True)] =
     [timed ''A'' 0 1 (Some True), timed ''B'' 1 3 (Some True)] \<and>
   optimize_timing (default_optimizer\<lparr>gap_merge_threshold := 0\<rparr>)
     [timed ''A'' 0 2 (Some True), timed ''B'' 1 3 (Some True)] None =
     [timed ''A'' 0 1 (Some True), timed ''B'' 1 (5 / 2) (Some True)]"
  by (simp add: phase_defs)

section \<open>Sentence grouping\<close>

lemmas grouper_defs = group_words_into_sentences_def raw_groups_def should_break_def
  fix_sentence_timing_overlaps_def fix_group_def Let_def

lemma group_loop_eq:
  "(case group_loop groups cur ws of (gs, c) \<Rightarrow> if c \<noteq> [] then gs @ [c] else gs) =
   groups @ group_rec cur ws"
  by (induction ws arbitrary: groups cur) simp_all

lemma raw_groups_eq: "raw_groups ws = group_rec [] ws"
  using group_loop_eq[of "[]" "[]" ws] by (simp add: raw_groups_def)

lemma should_break_Nil: "\<not> should_break [] w"
  by (simp add: should_break_def)

lemma group_rec_concat: "concat (group_rec cur ws) = cur @ ws"
  by (induction ws arbitrary: cur) simp_all

lemma group_rec_nonempty: "g \<in> set (group_rec cur ws) \<Longrightarrow> g \<noteq> []"
  by (induction ws arbitrary: cur) (auto simp add: should_break_Nil split: if_splits)

lemma group_rec_hd: "cur \<noteq> [] \<Longrightarrow> group_rec cur ws \<noteq> [] \<and> hd (hd (group_rec cur ws)) = hd cur"
  by (induction ws arbitrary: cur) auto

lemma group_rec_breaks: "successively (\<lambda>g g'. should_break g (hd g')) (group_rec cur ws)"
proof (induction ws arbitrary: cur)
  case Nil
  show ?case by simp
next
  case (Cons w rest)
  show ?case
    using Cons[of "[w]"] Cons[of "cur @ [w]"] group_rec_hd[of "[w]" rest]
    by (auto simp add: successively_Cons)
qed

lemma unbroken_snoc:
  assumes "unbroken cur" and "\<not> should_break cur w"
  shows "unbroken (cur @ [w])"
  unfolding unbroken_def
proof (intro allI impI)
  fix k assume k: "0 < k \<and> k < length (cur @ [w])"
  show "\<not> should_break (take k (cur @ [w])) ((cur @ [w]) ! k)"
  proof (cases "k < length cur")
    case True
    then show ?thesis using assms(1) k by (simp add: unbroken_def nth_append)
  next
    case False
    then have "k = length cur" using k by simp
    then show ?thesis using assms(2) by simp
  qed
qed

lemma unbroken_single: "unbroken [w]"
  by (simp add: unbroken_def)

lemma group_rec_unbroken: "unbroken cur \<Longrightarrow> g \<in> set (group_rec cur ws) \<Longrightarrow> unbroken g"
proof (induction ws arbitrary: cur)
  case Nil
  then show ?case by (simp split: if_splits)
next
  case (Cons w rest)
  show ?case
  proof (cases "should_break cur w")
    case True
    then show ?thesis
      using Cons.prems Cons.IH[OF unbroken_single, of w] by auto
  next
    case False
    then show ?thesis
      using Cons.prems Cons.IH[OF unbroken_snoc[OF Cons.prems(1) False]] by simp
  qed
qed

lemma group_rec_length: "length cur \<le> 6 \<Longrightarrow> g \<in> set (group_rec cur ws) \<Longrightarrow> length g \<le> 6"
proof (induction ws arbitrary: cur)
  case Nil
  then show ?case by (simp split: if_splits)
next
  case (Cons w rest)
  show ?case
  proof (cases "should_break cur w")
    case True
    then show ?thesis using Cons.prems Cons.IH[of "[w]"] by auto
  next
    case False
    then have "length cur < 6"
      using Cons.prems(1) by (cases "cur = []") (auto simp add: should_break_def Let_def)
    then show ?thesis using False Cons.prems Cons.IH[of "cur @ [w]"] by simp
  qed
qed

text \<open>
  A group the loop closed was followed by a word that met a break condition; on such groups
  the overlap fix never removes a whole group, and never the first word of a group.
\<close>

lemma fix_group_keeps:
  assumes "g \<noteq> []" and "case rest of [] \<Rightarrow> True | n # _ \<Rightarrow> n \<noteq> [] \<and> should_break g (hd n)"
  shows "\<exists>g'. fix_group g rest = Some g' \<and> g' \<noteq> [] \<and> same_word (hd g') (hd g)"
proof (cases rest)
  case Nil
  then show ?thesis using assms(1) by (simp add: fix_group_def same_word_def)
next
  case (Cons n ns)
  with assms(2) have n: "n \<noteq> []" and br: "should_break g (hd n)" by simp_all
  show ?thesis
  proof (cases "butlast g = []")
    case True
    then obtain w where g: "g = [w]"
      using assms(1) by (metis append_butlast_last_id append_Nil)
    have "start (hd n) - start w > 35 / 10 \<or> start (hd n) - end_time w > 8 / 10"
      using br unfolding g by (simp add: should_break_def Let_def)
    then show ?thesis
      using Cons n unfolding g
      by (auto simp add: fix_group_def Let_def same_word_def)
  next
    case False
    then have "hd (butlast g) = hd g"
      by (metis assms(1) hd_append2 append_butlast_last_id)
    then show ?thesis
      using Cons n False by (auto simp add: fix_group_def Let_def same_word_def)
  qed
qed


lemma fix_loop_keeps:
  assumes "\<forall>g \<in> set gs. g \<noteq> []" and "successively (\<lambda>g g'. should_break g (hd g')) gs"
  shows "list_all2 (\<lambda>g' g. g' \<noteq> [] \<and> same_word (hd g') (hd g)) (fix_loop gs) gs"
  using assms
proof (induction gs)
  case Nil
  show ?case by simp
next
  case (Cons g rest)
  have g: "g \<noteq> []" using Cons.prems(1) by simp
  have nxt: "case rest of [] \<Rightarrow> True | n # _ \<Rightarrow> n \<noteq> [] \<and> should_break g (hd n)"
    using Cons.prems by (cases rest) simp_all
  from fix_group_keeps[OF g nxt] obtain g' where
    g': "fix_group g rest = Some g'" "g' \<noteq> []" "same_word (hd g') (hd g)" by blast
  have "list_all2 (\<lambda>g' g. g' \<noteq> [] \<and> same_word (hd g') (hd g)) (fix_loop rest) rest"
    using Cons.prems by (intro Cons.IH) (auto simp add: successively_Cons)
  then show ?case using g g' by simp
qed

lemma fix_sentence_timing_overlaps_keeps:
  assumes "\<forall>g \<in> set gs. g \<noteq> []" and "successively (\<lambda>g g'. should_break g (hd g')) gs"
  shows "list_all2 (\<lambda>g' g. g' \<noteq> [] \<and> same_word (hd g') (hd g)) (fix_sentence_timing_overlaps gs) gs"
proof (cases "length gs \<le> 1")
  case True
  then show ?thesis
    using assms(1) by (simp add: fix_sentence_timing_overlaps_def list_all2_same same_word_def)
next
  case False
  then show ?thesis
    using fix_loop_keeps[OF assms] by (simp add: fix_sentence_timing_overlaps_def)
qed

lemma seven_words:
  "group_words_into_sentences
     [timed n1 t (t + 3 / 10) a1, timed n2 (t + 3 / 10) (t + 6 / 10) a2,
      timed n3 (t + 6 / 10) (t + 9 / 10) a3, timed n4 (t + 9 / 10) (t + 12 / 10) a4,
      timed n5 (t + 12 / 10) (t + 15 / 10) a5, timed n6 (t + 15 / 10) (t + 18 / 10) a6,
      timed n7 (t + 18 / 10) (t + 21 / 10) a7] =
     [[timed n1 t (t + 3 / 10) a1, timed n2 (t + 3 / 10) (t + 6 / 10) a2,
       timed n3 (t + 6 / 10) (t + 9 / 10) a3, timed n4 (t + 9 / 10) (t + 12 / 10) a4,
       timed n5 (t + 12 / 10) (t + 15 / 10) a5, timed n6 (t + 15 / 10) (t + 175 / 100) a6],
      [timed n7 (t + 18 / 10) (t + 21 / 10) a7]]"
  by (simp add: grouper_defs)

text \<open>
  C9: a word starts a new group exactly when the break condition holds for the group being
  filled (it has six words, or the word starts more than 3.5s after the group's first start,
  or more than 0.8s after the group's last end): the groups before the fix are the input cut
  into non-empty pieces of at most six words, inside a piece no word met the condition, and
  the first word of each later piece met it for the piece before. The overlap fix keeps
  every group and the first word of each (only its \<open>end\<close> may be cut). Seven words 0.3s
  apart, without gaps, give words 1-6 and word 7; the fix cuts the end of word 6 by 50ms.
\<close>

theorem group_words_into_sentences_breaks:
  "(should_break cur w \<longleftrightarrow>
      cur \<noteq> [] \<and> (6 \<le> length cur \<or> 35 / 10 < start w - start (hd cur) \<or>
                    8 / 10 < start w - end_time (last cur))) \<and>
   concat (raw_groups ws) = ws \<and>
   (\<forall>g \<in> set (raw_groups ws). g \<noteq> [] \<and> length g \<le> 6 \<and> unbroken g) \<and>
   successively (\<lambda>g g'. should_break g (hd g')) (raw_groups ws) \<and>
   list_all2 (\<lambda>g' g. g' \<noteq> [] \<and> same_word (hd g') (hd g))
     (group_words_into_sentences ws) (raw_groups ws) \<and>
   group_words_into_sentences
     [timed n1 t (t + 3 / 10) a1, timed n2 (t + 3 / 10) (t + 6 / 10) a2,
      timed n3 (t + 6 / 10) (t + 9 / 10) a3, timed n4 (t + 9 / 10) (t + 12 / 10) a4,
      timed n5 (t + 12 / 10) (t + 15 / 10) a5, timed n6 (t + 15 / 10) (t + 18 / 10) a6,
      timed n7 (t + 18 / 10) (t + 21 / 10) a7] =
     [[timed n1 t (t + 3 / 10) a1, timed n2 (t + 3 / 10) (t + 6 / 10) a2,
       timed n3 (t + 6 / 10) (t + 9 / 10) a3, timed n4 (t + 9 / 10) (t + 12 / 10) a4,
       timed n5 (t + 12 / 10) (t + 15 / 10) a5, timed n6 (t + 15 / 10) (t + 175 / 100) a6],
      [timed n7 (t + 18 / 10) (t + 21 / 10) a7]]"
proof (intro conjI)
  show "should_break cur w \<longleftrightarrow>
      cur \<noteq> [] \<and> (6 \<le> length cur \<or> 35 / 10 < start w - start (hd cur) \<or>
                    8 / 10 < start w - end_time (last cur))"
    by (simp add: should_break_def Let_def)
next
  show "concat (raw_groups ws) = ws"
    by (simp add: raw_groups_eq group_rec_concat)
next
  have "unbroken []" by (simp add: unbroken_def)
  then show "\<forall>g \<in> set (raw_groups ws). g \<noteq> [] \<and> length g \<le> 6 \<and> unbroken g"
    unfolding raw_groups_eq
    using group_rec_nonempty group_rec_length[of "[]"] group_rec_unbroken[of "[]"] by auto
next
  show "successively (\<lambda>g g'. should_break g (hd g')) (raw_groups ws)"
    unfolding raw_groups_eq by (rule group_rec_breaks)
next
  show "list_all2 (\<lambda>g' g. g' \<noteq> [] \<and> same_word (hd g') (hd g))
     (group_words_into_sentences ws) (raw_groups ws)"
  proof (cases "ws = []")
    case True
    then show ?thesis by (simp add: group_words_into_sentences_def raw_groups_def)
  next
    case False
    have "list_all2 (\<lambda>g' g. g' \<noteq> [] \<and> same_word (hd g') (hd g))
            (fix_sentence_timing_overlaps (group_rec [] ws)) (group_rec [] ws)"
      using group_rec_nonempty group_rec_breaks
      by (intro fix_sentence_timing_overlaps_keeps) auto
    then show ?thesis
      using False by (simp add: group_words_into_sentences_def raw_groups_eq)
  qed
next
  show "group_words_into_sentences
     [timed n1 t (t + 3 / 10) a1, timed n2 (t + 3 / 10) (t + 6 / 10) a2,
      timed n3 (t + 6 / 10) (t + 9 / 10) a3, timed n4 (t + 9 / 10) (t + 12 / 10) a4,
      timed n5 (t + 12 / 10) (t + 15 / 10) a5, timed n6 (t + 15 / 10) (t + 18 / 10) a6,
      timed n7 (t + 18 / 10) (t + 21 / 10) a7] =
     [[timed n1 t (t + 3 / 10) a1, timed n2 (t + 3 / 10) (t + 6 / 10) a2,
       timed n3 (t + 6 / 10) (t + 9 / 10) a3, timed n4 (t + 9 / 10) (t + 12 / 10) a4,
       timed n5 (t + 12 / 10) (t + 15 / 10) a5, timed n6 (t + 15 / 10) (t + 175 / 100) a6],
      [timed n7 (t + 18 / 10) (t + 21 / 10) a7]]"
    by (rule seven_words)
qed


theorem group_words_into_sentences_breaks_witness:
  "raw_groups
     [timed ''w1'' 0 (3 / 10) None, timed ''w2'' (3 / 10) (6 / 10) None,
      timed ''w3'' (6 / 10) (9 / 10) None, timed ''w4'' (9 / 10) (12 / 10) None,
      timed ''w5'' (12 / 10) (15 / 10) None, timed ''w6'' (15 / 10) (18 / 10) None,
      timed ''w7'' (18 / 10) (21 / 10) None] =
     [[timed ''w1'' 0 (3 / 10) None, timed ''w2'' (3 / 10) (6 / 10) None,
       timed ''w3'' (6 / 10) (9 / 10) None, timed ''w4'' (9 / 10) (12 / 10) None,
       timed ''w5'' (12 / 10) (15 / 10) None, timed ''w6'' (15 / 10) (18 / 10) None],
      [timed ''w7'' (18 / 10) (21 / 10) None]] \<and>
   should_break
     [timed ''w1'' 0 (3 / 10) None, timed ''w2'' (3 / 10) (6 / 10) None,
      timed ''w3'' (6 / 10) (9 / 10) None, timed ''w4'' (9 / 10) (12 / 10) None,
      timed ''w5'' (12 / 10) (15 / 10) None, timed ''w6'' (15 / 10) (18 / 10) None]
     (timed ''w7'' (18 / 10) (21 / 10) None) \<and>
   \<not> should_break [timed ''w1'' 0 (3 / 10) None] (timed ''w2'' (3 / 10) (6 / 10) None) \<and>
   group_words_into_sentences
     [timed ''w1'' 0 (3 / 10) None, timed ''w2'' (3 / 10) (6 / 10) None,
      timed ''w3'' (6 / 10) (9 / 10) None, timed ''w4'' (9 / 10) (12 / 10) None,
      timed ''w5'' (12 / 10) (15 / 10) None, timed ''w6'' (15 / 10) (18 / 10) None,
      timed ''w7'' (18 / 10) (21 / 10) None] =
     [[timed ''w1'' 0 (3 / 10) None, timed ''w2'' (3 / 10) (6 / 10) None,
       timed ''w3'' (6 / 10) (9 / 10) None, timed ''w4'' (9 / 10) (12 / 10) None,
       timed ''w5'' (12 / 10) (15 / 10) None, timed ''w6'' (15 / 10) (175 / 100) None],
      [timed ''w7'' (18 / 10) (21 / 10) None]]"
proof -
  let ?g = "[timed ''w1'' 0 (3 / 10) None, timed ''w2'' (3 / 10) (6 / 10) None,
      timed ''w3'' (6 / 10) (9 / 10) None, timed ''w4'' (9 / 10) (12 / 10) None,
      timed ''w5'' (12 / 10) (15 / 10) None, timed ''w6'' (15 / 10) (18 / 10) None]"
  let ?w7 = "timed ''w7'' (18 / 10) (21 / 10) None"
  let ?ws = "?g @ [?w7]"
  note t = group_words_into_sentences_breaks[of "[]" ?w7 ?ws
      "''w1''" 0 None "''w2''" None "''w3''" None "''w4''" None "''w5''" None "''w6''" None
      "''w7''" None]
  have e: "raw_groups ?ws = [?g, [?w7]]"
    by (simp add: grouper_defs)
  have "successively (\<lambda>g g'. should_break g (hd g')) (raw_groups ?ws)"
    by (rule t[THEN conjunct2, THEN conjunct2, THEN conjunct2, THEN conjunct1])
  then have b: "should_break ?g ?w7"
    unfolding e by simp
  have "\<forall>g \<in> set (raw_groups ?ws). g \<noteq> [] \<and> length g \<le> 6 \<and> unbroken g"
    by (rule t[THEN conjunct2, THEN conjunct2, THEN conjunct1])
  then have "unbroken ?g"
    unfolding e by simp
  then have "0 < (1::nat) \<and> 1 < length ?g \<longrightarrow> \<not> should_break (take 1 ?g) (?g ! 1)"
    unfolding unbroken_def by (rule spec)
  then have n: "\<not> should_break [timed ''w1'' 0 (3 / 10) None] (timed ''w2'' (3 / 10) (6 / 10) None)"
    by simp
  have s: "group_words_into_sentences ?ws =
     [[timed ''w1'' 0 (3 / 10) None, timed ''w2'' (3 / 10) (6 / 10) None,
       timed ''w3'' (6 / 10) (9 / 10) None, timed ''w4'' (9 / 10) (12 / 10) None,
       timed ''w5'' (12 / 10) (15 / 10) None, timed ''w6'' (15 / 10) (175 / 100) None],
      [?w7]]"
    using t[THEN conjunct2, THEN conjunct2, THEN conjunct2, THEN conjunct2, THEN conjunct2]
    by simp
  show ?thesis
    using e b n s by (simp only: append.simps) blast
qed


section \<open>The overlap fix on overlapping words\<close>

text \<open>
  When the words are sorted by start and do not overlap inside a group, no group of the
  result ends after the next one starts.
\<close>

lemma fix_group_result:
  assumes "g \<noteq> []" and "n \<noteq> []" and "no_overlap g" and "start (last g) \<le> start (hd n)"
    and "fix_group g (n # ns) = Some g'"
  shows "g' \<noteq> [] \<and> end_time (last g') \<le> start (hd n) \<and> start (hd g') = start (hd g)"
proof (cases "end_time (last g) \<ge> start (hd n)")
  case False
  then show ?thesis using assms by (simp add: fix_group_def Let_def)
next
  case True
  show ?thesis
  proof (cases "start (hd n) - 5 / 100 \<le> start (last g)")
    case False
    with True assms(1,2,5) have g': "g' = butlast g @ [(last g)\<lparr>end_time := start (hd n) - 5 / 100\<rparr>]"
      by (simp add: fix_group_def Let_def)
    have "start (hd g') = start (hd g)"
      unfolding g' using assms(1) by (cases g rule: rev_cases) (auto simp add: hd_append)
    then show ?thesis unfolding g' by simp
  next
    case pop: True
    with True assms(1,2,5) have g': "g' = butlast g" and ne: "butlast g \<noteq> []"
      by (auto simp add: fix_group_def Let_def split: if_splits)
    obtain xs x y where g: "g = xs @ [x, y]"
      using ne assms(1)
      by (metis append_butlast_last_id append.assoc append_Cons append_Nil)
    have "end_time x \<le> start y"
      using assms(3) unfolding g no_overlap_def by (simp add: successively_append_iff)
    moreover have "start y \<le> start (hd n)" using assms(4) unfolding g by simp
    moreover have "hd (butlast g) = hd g" unfolding g by (cases xs) (simp_all add: butlast_append)
    ultimately show ?thesis unfolding g' using ne unfolding g by (simp add: butlast_append)
  qed
qed

lemma fix_loop_heads:
  "g' \<in> set (fix_loop gs) \<Longrightarrow> \<exists>g \<in> set gs. g \<noteq> [] \<and> g' \<noteq> [] \<and> start (hd g') = start (hd g)"
proof (induction gs)
  case Nil
  then show ?case by simp
next
  case (Cons g rest)
  show ?case
  proof (cases "g = []")
    case True
    then show ?thesis using Cons by auto
  next
    case False
    show ?thesis
    proof (cases "fix_group g rest")
      case None
      then show ?thesis using Cons False by auto
    next
      case (Some f)
      have f: "f \<noteq> [] \<and> start (hd f) = start (hd g)"
      proof -
        have keep: "butlast g \<noteq> [] \<Longrightarrow> hd (butlast g) = hd g"
          by (metis False hd_append2 append_butlast_last_id)
        have upd: "start (hd (butlast g @ [(last g)\<lparr>end_time := e\<rparr>])) = start (hd g)" for e
          using False by (cases g rule: rev_cases) (auto simp add: hd_append)
        show ?thesis
          using Some False keep upd
          by (auto simp add: fix_group_def Let_def split: list.splits if_splits)
      qed
      then show ?thesis using Cons False Some by auto
    qed
  qed
qed


lemma sorted_concat_hd:
  assumes "sorted (map start (concat (n # ns)))" and "n \<noteq> []" and "g \<in> set (n # ns)" and "g \<noteq> []"
  shows "start (hd n) \<le> start (hd g)"
proof -
  obtain x xs where n: "n = x # xs" using assms(2) by (cases n) auto
  have "hd g \<in> set (concat (n # ns))" using assms(3,4) by (auto intro: hd_in_set)
  then have "hd g = x \<or> hd g \<in> set (xs @ concat ns)" unfolding n by auto
  moreover have "\<forall>y \<in> set (xs @ concat ns). start x \<le> start y"
    using assms(1) unfolding n by auto
  ultimately show ?thesis unfolding n by auto
qed

lemma fix_loop_separates:
  assumes "\<forall>g \<in> set gs. g \<noteq> [] \<and> no_overlap g" and "sorted (map start (concat gs))"
  shows "successively (\<lambda>g g'. end_time (last g) \<le> start (hd g')) (fix_loop gs)"
  using assms
proof (induction gs)
  case Nil
  show ?case by simp
next
  case (Cons g rest)
  have g: "g \<noteq> []" "no_overlap g" using Cons.prems(1) by simp_all
  have srt: "sorted (map start (concat rest))"
    using Cons.prems(2) by (simp add: sorted_append)
  have IH: "successively (\<lambda>g g'. end_time (last g) \<le> start (hd g')) (fix_loop rest)"
    using Cons.prems(1) srt by (intro Cons.IH) simp_all
  show ?case
  proof (cases rest)
    case Nil
    then show ?thesis using g by (simp add: fix_group_def)
  next
    case (Cons n ns)
    have n: "n \<noteq> []" using Cons.prems(1) Cons by simp
    have "last g \<in> set g" "hd n \<in> set (concat rest)"
      using g n Cons by simp_all
    then have le: "start (last g) \<le> start (hd n)"
      using Cons.prems(2) by (auto simp add: sorted_append)
    show ?thesis
    proof (cases "fix_group g rest")
      case None
      then show ?thesis using IH g by simp
    next
      case (Some g')
      have r: "g' \<noteq> [] \<and> end_time (last g') \<le> start (hd n) \<and> start (hd g') = start (hd g)"
        using fix_group_result[OF g(1) n g(2) le] Some Cons by simp
      have "end_time (last g') \<le> start (hd (hd (fix_loop rest)))" if ne: "fix_loop rest \<noteq> []"
      proof -
        have "hd (fix_loop rest) \<in> set (fix_loop rest)" using ne by simp
        from fix_loop_heads[OF this] obtain g0 where
          g0: "g0 \<in> set rest" "g0 \<noteq> []" "start (hd (hd (fix_loop rest))) = start (hd g0)"
          by blast
        have "start (hd n) \<le> start (hd g0)"
          using sorted_concat_hd[OF _ n _ g0(2)] srt g0(1) unfolding Cons by blast
        then show ?thesis using r g0(3) by simp
      qed
      then show ?thesis
        using IH g Some by (auto simp add: successively_Cons)
    qed
  qed
qed

lemma fix_sentence_timing_overlaps_separates:
  assumes "\<forall>g \<in> set gs. g \<noteq> [] \<and> no_overlap g" and "sorted (map start (concat gs))"
  shows "successively (\<lambda>g g'. end_time (last g) \<le> start (hd g')) (fix_sentence_timing_overlaps gs)"
proof (cases "length gs \<le> 1")
  case True
  then have "gs = [] \<or> (\<exists>g. gs = [g])"
    by (cases gs) (auto simp add: length_Suc_conv)
  then show ?thesis
    by (auto simp add: fix_sentence_timing_overlaps_def)
next
  case False
  then show ?thesis
    using fix_loop_separates[OF assms] by (simp add: fix_sentence_timing_overlaps_def)
qed


text \<open>
  C4: when the fix removes the last word of a group, it does not look at the word that is
  now last, whose end can lie beyond the start of the next group. The third run is the whole
  path from raw word timings: \<^verbatim>\<open>optimize_timing\<close> with its default configuration, then the
  grouping.
\<close>

theorem fix_sentence_timing_overlaps_leaves_overlap:
  "fix_sentence_timing_overlaps
     [[timed ''x'' 0 5 None, timed ''y'' (348 / 100) 4 None], [timed ''z'' (352 / 100) 6 None]] =
     [[timed ''x'' 0 5 None], [timed ''z'' (352 / 100) 6 None]] \<and>
   group_words_into_sentences
     [timed ''x'' 0 5 None, timed ''y'' (348 / 100) 4 None, timed ''z'' (352 / 100) 6 None] =
     [[timed ''x'' 0 5 None], [timed ''z'' (352 / 100) 6 None]] \<and>
   group_words_into_sentences (optimize_timing default_optimizer
     [timed ''a1'' 0 (1 / 2) None, timed ''a2'' (1 / 2) 1 None, timed ''a3'' 1 (3 / 2) None,
      timed ''a4'' (3 / 2) 2 None, timed ''x'' 2 (5 / 2) None, timed ''y'' 2 (5 / 2) None,
      timed ''z'' (204 / 100) 3 None] None) =
     [[timed ''a1'' 0 (1 / 2) None, timed ''a2'' (1 / 2) 1 None, timed ''a3'' 1 (3 / 2) None,
       timed ''a4'' (3 / 2) 2 None, timed ''x'' 2 (23 / 10) None],
      [timed ''z'' (204 / 100) 3 None]]"
  by (simp add: phase_defs grouper_defs)


section \<open>Reading load\<close>

lemma estimate_reading_load_Some:
  assumes "ws \<noteq> []"
  shows "estimate_reading_load ws =
     Some \<lparr>total_words = length ws,
           active_words = length (filter is_active ws),
           words_per_second = wps_of ws,
           avg_word_duration_ms =
             (if filter is_active ws \<noteq> []
              then sum_list (map (\<lambda>w. end_time w - start w) (filter is_active ws))
                     / of_nat (length (filter is_active ws))
              else 0) * 1000,
           reading_difficulty = difficulty_of (wps_of ws),
           total_duration = end_time (last ws) - start (hd ws),
           recommended_min_duration = (if wps_of ws > 25 / 10 then 4 / 10 else 3 / 10)\<rparr>"
  using assms by (simp add: estimate_reading_load_def Let_def wps_of_def)

lemma wps_of_scenario:
  assumes "length (filter is_active ws) = 5" and "end_time (last ws) - start (hd ws) = 23 / 10"
  shows "wps_of ws = 50 / 23"
  unfolding wps_of_def assms by simp

text \<open>
  C10: for a non-empty list \<^verbatim>\<open>estimate_reading_load\<close> returns a result whose difficulty is
  Very Hard above 3.5 active words per second, Hard above 2.5, Medium above 1.5 and Easy
  otherwise, and whose recommended minimum duration is 0.4 above 2.5 words per second and 0.3
  otherwise; five active words over 2.3s give 50/23 (about 2.17) words per second and Medium.
\<close>

theorem estimate_reading_load_classifies:
  assumes "ws \<noteq> []"
  shows "\<exists>r. estimate_reading_load ws = Some r \<and>
     words_per_second r =
       (if 0 < end_time (last ws) - start (hd ws)
        then of_nat (length (filter is_active ws)) / (end_time (last ws) - start (hd ws)) else 0) \<and>
     reading_difficulty r =
       (if words_per_second r > 35 / 10 then ''Very Hard''
        else if words_per_second r > 25 / 10 then ''Hard''
        else if words_per_second r > 15 / 10 then ''Medium''
        else ''Easy'') \<and>
     recommended_min_duration r = (if words_per_second r > 25 / 10 then 4 / 10 else 3 / 10) \<and>
     (length (filter is_active ws) = 5 \<and> end_time (last ws) - start (hd ws) = 23 / 10 \<longrightarrow>
        words_per_second r = 50 / 23 \<and> 217 / 100 \<le> words_per_second r \<and>
        words_per_second r < 218 / 100 \<and> reading_difficulty r = ''Medium'' \<and>
        recommended_min_duration r = 3 / 10)"
proof -
  define r where "r = the (estimate_reading_load ws)"
  have r: "estimate_reading_load ws = Some r"
    unfolding r_def estimate_reading_load_Some[OF assms] by simp
  have sel: "words_per_second r = wps_of ws"
    "reading_difficulty r = difficulty_of (wps_of ws)"
    "recommended_min_duration r = (if wps_of ws > 25 / 10 then 4 / 10 else 3 / 10)"
    unfolding r_def estimate_reading_load_Some[OF assms] by simp_all
  have scen: "length (filter is_active ws) = 5 \<and> end_time (last ws) - start (hd ws) = 23 / 10 \<longrightarrow>
        words_per_second r = 50 / 23 \<and> 217 / 100 \<le> words_per_second r \<and>
        words_per_second r < 218 / 100 \<and> reading_difficulty r = ''Medium'' \<and>
        recommended_min_duration r = 3 / 10"
    unfolding sel by (simp add: wps_of_scenario difficulty_of_def)
  have wps: "words_per_second r =
       (if 0 < end_time (last ws) - start (hd ws)
        then of_nat (length (filter is_active ws)) / (end_time (last ws) - start (hd ws)) else 0)"
    unfolding sel wps_of_def ..
  have diff: "reading_difficulty r =
       (if words_per_second r > 35 / 10 then ''Very Hard''
        else if words_per_second r > 25 / 10 then ''Hard''
        else if words_per_second r > 15 / 10 then ''Medium''
        else ''Easy'')"
    unfolding sel difficulty_of_def ..
  have rec: "recommended_min_duration r = (if words_per_second r > 25 / 10 then 4 / 10 else 3 / 10)"
    unfolding sel ..
  from r wps diff rec scen show ?thesis by blast
qed

theorem estimate_reading_load_classifies_witness:
  "[timed ''One'' 0 (5 / 10) (Some True), timed ''of'' (5 / 10) (8 / 10) None,
    timed ''my'' (8 / 10) (11 / 10) (Some True), timed ''favorite'' (11 / 10) (18 / 10) (Some True),
    timed ''things'' (18 / 10) (23 / 10) (Some True)] \<noteq> [] \<and>
   length (filter is_active
     [timed ''One'' 0 (5 / 10) (Some True), timed ''of'' (5 / 10) (8 / 10) None,
      timed ''my'' (8 / 10) (11 / 10) (Some True), timed ''favorite'' (11 / 10) (18 / 10) (Some True),
      timed ''things'' (18 / 10) (23 / 10) (Some True)]) = 5 \<and>
   map_option reading_difficulty (estimate_reading_load
     [timed ''One'' 0 (5 / 10) (Some True), timed ''of'' (5 / 10) (8 / 10) None,
      timed ''my'' (8 / 10) (11 / 10) (Some True), timed ''favorite'' (11 / 10) (18 / 10) (Some True),
      timed ''things'' (18 / 10) (23 / 10) (Some True)]) = Some ''Medium'' \<and>
   map_option words_per_second (estimate_reading_load
     [timed ''One'' 0 (5 / 10) (Some True), timed ''of'' (5 / 10) (8 / 10) None,
      timed ''my'' (8 / 10) (11 / 10) (Some True), timed ''favorite'' (11 / 10) (18 / 10) (Some True),
      timed ''things'' (18 / 10) (23 / 10) (Some True)]) = Some (50 / 23)"
proof -
  let ?ws = "[timed ''One'' 0 (5 / 10) (Some True), timed ''of'' (5 / 10) (8 / 10) None,
      timed ''my'' (8 / 10) (11 / 10) (Some True), timed ''favorite'' (11 / 10) (18 / 10) (Some True),
      timed ''things'' (18 / 10) (23 / 10) (Some True)]"
  have h: "?ws \<noteq> []" by simp
  have a: "length (filter is_active ?ws) = 5" by (simp add: is_active_def)
  have d: "end_time (last ?ws) - start (hd ?ws) = 23 / 10" by simp
  from estimate_reading_load_classifies[OF h] obtain r where
    r: "estimate_reading_load ?ws = Some r"
    and "length (filter is_active ?ws) = 5 \<and> end_time (last ?ws) - start (hd ?ws) = 23 / 10 \<longrightarrow>
        words_per_second r = 50 / 23 \<and> 217 / 100 \<le> words_per_second r \<and>
        words_per_second r < 218 / 100 \<and> reading_difficulty r = ''Medium'' \<and>
        recommended_min_duration r = 3 / 10"
    by blast
  with a d have "words_per_second r = 50 / 23" "reading_difficulty r = ''Medium''"
    by blast+
  with r a show ?thesis by simp
qed


end
